theory Spec2Isabelle
  imports
    Main
    "HOL-Library.Multiset"
    "HOL-Library.AList"
    "HOL-Library.Char_ord"
    "HOL-Library.List_Lexorder"
    "HOL-Library.Product_Lexorder"
begin

section \<open>Connor: barcode-aware deduplication of paired alignments\<close>

text \<open>
  A shallow embedding of \<^verbatim>\<open>connor/connor.py\<close>. Python dictionaries that the code only
  looks up by key are maps; dictionaries that the code enumerates (\<^verbatim>\<open>items()\<close>,
  \<^verbatim>\<open>values()\<close>) are association lists in insertion order. A Python set of pairs is a
  duplicate-free list: the position of an element stands for the set's iteration order,
  which Python leaves unspecified, so no theorem below depends on it. Where the code
  picks by that order (\<^verbatim>\<open>set.pop()\<close>), the model gives every pick the set allows.
\<close>

subsection \<open>Data model\<close>

text \<open>
  The attributes of a \<^verbatim>\<open>pysam.AlignedSegment\<close> that the code reads. The field
  \<open>payload\<close> stands for the rest of the record (flags, qualities, ...): the code never
  reads it, but it takes part in the equality of two segments.
\<close>

record aligned_segment =
  query_name :: string
  reference_name :: string
  reference_start :: int
  next_reference_start :: int
  query_sequence :: string
  payload :: nat

type_synonym coordinate_key = "string \<times> int \<times> int"

type_synonym tag = "string \<times> string"

record lightweight_alignment =
  lwa_name :: string
  lwa_key :: coordinate_key

record paired_alignment =
  left_alignment :: aligned_segment
  right_alignment :: aligned_segment

datatype error = KeyError

subsection \<open>LightweightAlignment\<close>

definition LightweightAlignment :: "aligned_segment \<Rightarrow> lightweight_alignment" where
  "LightweightAlignment aseg =
     (let chrom = reference_name aseg;
          pos1 = reference_start aseg;
          pos2 = next_reference_start aseg
      in \<lparr>lwa_name = query_name aseg,
          lwa_key = (if pos1 < pos2 then (chrom, pos1, pos2) else (chrom, pos2, pos1))\<rparr>)"

definition PairedAlignment :: "aligned_segment \<Rightarrow> aligned_segment \<Rightarrow> paired_alignment" where
  "PairedAlignment l r = \<lparr>left_alignment = l, right_alignment = r\<rparr>"

subsection \<open>Dictionaries with a default\<close>

text \<open>
  \<^verbatim>\<open>defaultdict(f)[k]\<close> reads the value stored under \<open>k\<close>, or \<open>f()\<close> when there is
  none (and then stores it: the callers below write the entry back).
\<close>

definition dd_get :: "'v \<Rightarrow> ('k \<rightharpoonup> 'v) \<Rightarrow> 'k \<Rightarrow> 'v" where
  "dd_get d m k = (case m k of None \<Rightarrow> d | Some v \<Rightarrow> v)"

subsection \<open>The first pass: the manifest\<close>

fun manifest_loop ::
  "lightweight_alignment list \<Rightarrow> (coordinate_key \<rightharpoonup> string set) \<Rightarrow> (coordinate_key \<rightharpoonup> string set)"
where
  "manifest_loop [] af_dict = af_dict"
| "manifest_loop (lwa # rest) af_dict =
     manifest_loop rest
       (af_dict(lwa_key lwa \<mapsto> insert (lwa_name lwa) (dd_get {} af_dict (lwa_key lwa))))"

definition build_coordinate_read_name_manifest ::
  "lightweight_alignment list \<Rightarrow> (coordinate_key \<rightharpoonup> string set)"
where
  "build_coordinate_read_name_manifest lw_aligns = manifest_loop lw_aligns Map.empty"

subsection \<open>The second pass: coordinate families\<close>

text \<open>
  The generator's local state, the manifest it mutates, and the groups it has yielded so
  far. Each yielded group is recorded with the key it was popped from; the generator
  itself hands out the group only (\<open>build_coordinate_families\<close> below).
\<close>

record fam_state =
  family_dict :: "coordinate_key \<rightharpoonup> paired_alignment list"
  pairing_dict :: "string \<rightharpoonup> aligned_segment"
  manifest :: "coordinate_key \<rightharpoonup> string set"
  yielded :: "(coordinate_key \<times> paired_alignment list) list"

text \<open>
  One iteration of the \<^verbatim>\<open>for aseg in aligned_segments\<close> loop. \<^verbatim>\<open>set.remove\<close> raises
  \<^verbatim>\<open>KeyError\<close> when the name is not in the set; the state returned with the error is
  the state at the raise: the pair is already in \<open>family_dict\<close>, and the manifest's
  default entry has been created by the lookup.
\<close>

definition families_step :: "aligned_segment \<Rightarrow> fam_state \<Rightarrow> fam_state \<times> error option" where
  "families_step aseg s =
     (case pairing_dict s (query_name aseg) of
        None \<Rightarrow> (s\<lparr>pairing_dict := (pairing_dict s)(query_name aseg \<mapsto> aseg)\<rparr>, None)
      | Some mate \<Rightarrow>
          (let paired_align = PairedAlignment mate aseg;
               k = lwa_key (LightweightAlignment aseg);
               fam = List.insert paired_align (dd_get [] (family_dict s) k);
               owed = dd_get {} (manifest s) k;
               s1 = s\<lparr>pairing_dict := (pairing_dict s)(query_name aseg := None),
                      family_dict := (family_dict s)(k \<mapsto> fam),
                      manifest := (manifest s)(k \<mapsto> owed)\<rparr>
           in if query_name aseg \<notin> owed then (s1, Some KeyError)
              else if owed - {query_name aseg} = {}
              then (s1\<lparr>manifest := (manifest s)(k \<mapsto> owed - {query_name aseg}),
                       family_dict := (family_dict s)(k := None),
                       yielded := yielded s @ [(k, fam)]\<rparr>, None)
              else (s1\<lparr>manifest := (manifest s)(k \<mapsto> owed - {query_name aseg})\<rparr>, None)))"

fun families_loop :: "aligned_segment list \<Rightarrow> fam_state \<Rightarrow> fam_state \<times> error option" where
  "families_loop [] s = (s, None)"
| "families_loop (aseg # rest) s =
     (case families_step aseg s of
        (s', None) \<Rightarrow> families_loop rest s'
      | (s', Some e) \<Rightarrow> (s', Some e))"

definition families_init :: "(coordinate_key \<rightharpoonup> string set) \<Rightarrow> fam_state" where
  "families_init coord_read_name_manifest =
     \<lparr>family_dict = Map.empty, pairing_dict = Map.empty,
      manifest = coord_read_name_manifest, yielded = []\<rparr>"

text \<open>The groups the generator yields, in order, and the error that ended it, if any.\<close>

definition build_coordinate_families ::
  "aligned_segment list \<Rightarrow> (coordinate_key \<rightharpoonup> string set)
     \<Rightarrow> paired_alignment list list \<times> error option"
where
  "build_coordinate_families aligned_segments coord_read_name_manifest =
     (case families_loop aligned_segments (families_init coord_read_name_manifest) of
        (s, e) \<Rightarrow> (map snd (yielded s), e))"

subsection \<open>Tags: ranking and partitioning\<close>

definition left_tag_id :: "paired_alignment \<Rightarrow> string" where
  "left_tag_id paired_align = take 3 (query_sequence (left_alignment paired_align))"

definition right_tag_id :: "paired_alignment \<Rightarrow> string" where
  "right_tag_id paired_align = take 3 (query_sequence (right_alignment paired_align))"

fun count_tags :: "paired_alignment list \<Rightarrow> (tag \<times> int) list \<Rightarrow> (tag \<times> int) list" where
  "count_tags [] tag_count = tag_count"
| "count_tags (paired_align # rest) tag_count =
     (let t = (left_tag_id paired_align, right_tag_id paired_align)
      in count_tags rest (AList.update t (dd_get 0 (map_of tag_count) t + 1) tag_count))"

text \<open>
  The sort key \<^verbatim>\<open>lambda x: (-1 * x[1], x[0])\<close> of an item (tag, count). Python compares
  tuples and strings lexicographically, as the orders on products and lists here do.
\<close>

definition rank_key :: "tag \<times> int \<Rightarrow> int \<times> tag" where
  "rank_key x = (-1 * snd x, fst x)"

definition rank_tags :: "paired_alignment list \<Rightarrow> tag list" where
  "rank_tags tagged_paired_aligns =
     (let tag_count = count_tags tagged_paired_aligns [];
          tags_by_count = sort_key rank_key tag_count
      in map fst tags_by_count)"

text \<open>The inner loop: the first ranked tag that matches on either side takes the pair.\<close>

fun assign_tag ::
  "tag list \<Rightarrow> paired_alignment \<Rightarrow> (tag \<times> paired_alignment list) list
     \<Rightarrow> (tag \<times> paired_alignment list) list"
where
  "assign_tag [] paired_align tag_aligns = tag_aligns"
| "assign_tag (best_tag # rest) paired_align tag_aligns =
     (if left_tag_id paired_align = fst best_tag \<or> right_tag_id paired_align = snd best_tag
      then AList.update best_tag
             (List.insert paired_align (dd_get [] (map_of tag_aligns) best_tag)) tag_aligns
      else assign_tag rest paired_align tag_aligns)"

fun tag_families_loop ::
  "paired_alignment list \<Rightarrow> tag list \<Rightarrow> (tag \<times> paired_alignment list) list
     \<Rightarrow> (tag \<times> paired_alignment list) list"
where
  "tag_families_loop [] ranked_tags tag_aligns = tag_aligns"
| "tag_families_loop (paired_align # rest) ranked_tags tag_aligns =
     tag_families_loop rest ranked_tags (assign_tag ranked_tags paired_align tag_aligns)"

definition build_tag_families ::
  "paired_alignment list \<Rightarrow> tag list \<Rightarrow> paired_alignment list list"
where
  "build_tag_families tagged_paired_aligns ranked_tags =
     map snd (tag_families_loop tagged_paired_aligns ranked_tags [])"

subsection \<open>Consensus and output\<close>

text \<open>
  \<^verbatim>\<open>set.pop()\<close> removes and returns an arbitrary element of the set (which one is
  decided by the hash order, not by the program) and raises \<^verbatim>\<open>KeyError\<close> on the empty
  set. The model gives the set of all outcomes the call can have; the functions that
  write the output give the set of all outcomes in the same way.
\<close>

definition build_consensus_pair :: "paired_alignment list \<Rightarrow> (error + paired_alignment) set" where
  "build_consensus_pair alignment_family =
     (if alignment_family = [] then {Inl KeyError} else Inr ` set alignment_family)"

fun write_tag_families ::
  "paired_alignment list list \<Rightarrow> aligned_segment list \<Rightarrow> (error + aligned_segment list) set"
where
  "write_tag_families [] outfile = {Inr outfile}"
| "write_tag_families (tag_family # rest) outfile =
     (\<Union>r\<in>build_consensus_pair tag_family.
        case r of
          Inl e \<Rightarrow> {Inl e}
        | Inr read_pair \<Rightarrow>
            write_tag_families rest
              (outfile @ [left_alignment read_pair, right_alignment read_pair]))"

text \<open>The body of the loop of \<^verbatim>\<open>main\<close> for one coordinate family.\<close>

definition write_coord_family ::
  "paired_alignment list \<Rightarrow> aligned_segment list \<Rightarrow> (error + aligned_segment list) set"
where
  "write_coord_family coord_family outfile =
     (let ranked_tags = rank_tags coord_family
      in write_tag_families (build_tag_families coord_family ranked_tags) outfile)"

fun write_coord_families ::
  "paired_alignment list list \<Rightarrow> aligned_segment list \<Rightarrow> (error + aligned_segment list) set"
where
  "write_coord_families [] outfile = {Inr outfile}"
| "write_coord_families (coord_family # rest) outfile =
     (\<Union>r\<in>write_coord_family coord_family outfile.
        case r of
          Inl e \<Rightarrow> {Inl e}
        | Inr outfile' \<Rightarrow> write_coord_families rest outfile')"

text \<open>
  \<^verbatim>\<open>main\<close> on the reads of the input file: the manifest of the first pass drives the
  second pass over the same reads. An error of the generator surfaces after the groups
  yielded before it have been written.
\<close>

definition coord_manifest_of :: "aligned_segment list \<Rightarrow> (coordinate_key \<rightharpoonup> string set)" where
  "coord_manifest_of input_bam =
     build_coordinate_read_name_manifest (map LightweightAlignment input_bam)"

definition main :: "aligned_segment list \<Rightarrow> (error + aligned_segment list) set" where
  "main input_bam =
     (case build_coordinate_families input_bam (coord_manifest_of input_bam) of
        (coord_families, e) \<Rightarrow>
          (\<Union>r\<in>write_coord_families coord_families [].
             case r of
               Inl e' \<Rightarrow> {Inl e'}
             | Inr outfile \<Rightarrow> (case e of None \<Rightarrow> {Inr outfile} | Some e' \<Rightarrow> {Inl e'})))"

subsection \<open>Notions used to state the properties\<close>

text \<open>The tag of a pair: the two barcode prefixes that both tag functions compute.\<close>

definition pair_tag :: "paired_alignment \<Rightarrow> tag" where
  "pair_tag paired_align = (left_tag_id paired_align, right_tag_id paired_align)"

definition occurrences :: "paired_alignment list \<Rightarrow> tag \<Rightarrow> nat" where
  "occurrences g t = count_list (map pair_tag g) t"

text \<open>
  The partitioning rule in the specification's words: a pair matches a tag when its left
  prefix is the tag's left prefix or its right prefix is the tag's right prefix, and it
  goes to the first tag of the ranking that it matches.
\<close>

definition tag_matches :: "paired_alignment \<Rightarrow> tag \<Rightarrow> bool" where
  "tag_matches p t \<longleftrightarrow> left_tag_id p = fst t \<or> right_tag_id p = snd t"

definition first_matching_tag :: "tag list \<Rightarrow> paired_alignment \<Rightarrow> tag option" where
  "first_matching_tag ranked_tags p = find (tag_matches p) ranked_tags"

text \<open>The cluster stored under a tag in \<^verbatim>\<open>tag_aligns\<close>; empty when there is none.\<close>

definition cluster_of ::
  "(tag \<times> paired_alignment list) list \<Rightarrow> tag \<Rightarrow> paired_alignment list"
where
  "cluster_of tag_aligns t = dd_get [] (map_of tag_aligns) t"

definition total_size :: "(tag \<times> paired_alignment list) list \<Rightarrow> nat" where
  "total_size al = sum_list (map (length \<circ> snd) al)"

definition well_formed_clusters :: "(tag \<times> paired_alignment list) list \<Rightarrow> bool" where
  "well_formed_clusters al \<longleftrightarrow> distinct (map fst al) \<and> [] \<notin> snd ` set al"

subsection \<open>Example data\<close>

definition example_read :: "string \<Rightarrow> int \<Rightarrow> int \<Rightarrow> string \<Rightarrow> aligned_segment" where
  "example_read n p1 p2 sq =
     \<lparr>query_name = n, reference_name = ''chr1'', reference_start = p1,
      next_reference_start = p2, query_sequence = sq, payload = 0\<rparr>"

definition example_pair :: "string \<Rightarrow> string \<Rightarrow> string \<Rightarrow> paired_alignment" where
  "example_pair n l r = PairedAlignment (example_read n 100 200 l) (example_read n 200 100 r)"

text \<open>Four pairs at one coordinate: three tagged (AAA, CCC), one tagged (ATT, CCC).\<close>

definition example_group :: "paired_alignment list" where
  "example_group =
     [example_pair ''a'' ''AAANNN'' ''CCCNNN'', example_pair ''b'' ''AAANNN'' ''CCCNNN'',
      example_pair ''c'' ''AAANNN'' ''CCCNNN'', example_pair ''d'' ''ATTNNN'' ''CCCNNN'']"

subsection \<open>Notions used to state the properties of the second pass\<close>

text \<open>
  The key that the second pass files a completed pair under (computed from the second
  mate), the names the manifest still owes at a key, and the keys of the groups yielded
  so far.
\<close>

definition key_of :: "aligned_segment \<Rightarrow> coordinate_key" where
  "key_of aseg = lwa_key (LightweightAlignment aseg)"

definition owed :: "fam_state \<Rightarrow> coordinate_key \<Rightarrow> string set" where
  "owed s k = dd_get {} (manifest s) k"

definition yielded_keys :: "fam_state \<Rightarrow> coordinate_key set" where
  "yielded_keys s = fst ` set (yielded s)"

definition new_group :: "fam_state \<Rightarrow> aligned_segment \<Rightarrow> aligned_segment \<Rightarrow> paired_alignment list" where
  "new_group s mate aseg =
     List.insert (PairedAlignment mate aseg) (dd_get [] (family_dict s) (key_of aseg))"

text \<open>
  A state in which every yielded key has an empty manifest entry, and one in which no
  yielded key has a group in progress.
\<close>

definition released :: "fam_state \<Rightarrow> bool" where
  "released s \<longleftrightarrow>
     distinct (map fst (yielded s)) \<and> (\<forall>k\<in>yielded_keys s. manifest s k = Some {})"

definition closed :: "fam_state \<Rightarrow> bool" where
  "closed s \<longleftrightarrow> (\<forall>k\<in>yielded_keys s. family_dict s k = None)"

text \<open>A name still owed at a key whose group has not been yielded.\<close>

definition withheld :: "string \<Rightarrow> coordinate_key \<Rightarrow> fam_state \<Rightarrow> bool" where
  "withheld n k s \<longleftrightarrow> n \<in> owed s k \<and> k \<notin> yielded_keys s"

subsection \<open>Example inputs\<close>

text \<open>
  One complete pair; a read name that occurs four times at one coordinate; a single read
  without its mate; and the state of the second pass on the complete pair after its
  first read.
\<close>

definition pair_reads :: "aligned_segment list" where
  "pair_reads = [example_read ''a'' 100 200 ''AAANNN'', example_read ''a'' 200 100 ''CCCNNN'']"

definition reopened_reads :: "aligned_segment list" where
  "reopened_reads =
     [example_read ''a'' 100 200 ''AAANNN'', example_read ''a'' 200 100 ''CCCNNN'',
      example_read ''a'' 100 200 ''ATTNNN'', example_read ''a'' 200 100 ''GGGNNN'']"

definition orphan_reads :: "aligned_segment list" where
  "orphan_reads = [example_read ''a'' 100 200 ''AAANNN'']"

definition waiting_state :: fam_state where
  "waiting_state =
     fst (families_step (example_read ''a'' 100 200 ''AAANNN'')
            (families_init (coord_manifest_of pair_reads)))"

subsection \<open>Notions used to state that a well-formed input is consumed\<close>

text \<open>The reads of a list of pairs: left mate, right mate, pair after pair.\<close>

definition segments_of :: "paired_alignment list \<Rightarrow> aligned_segment list" where
  "segments_of ps = concat (map (\<lambda>p. [left_alignment p, right_alignment p]) ps)"

text \<open>
  A well-formed input: the name of every read occurs exactly twice, and two reads with
  the same name get the same coordinate key.
\<close>

definition well_formed_input :: "aligned_segment list \<Rightarrow> bool" where
  "well_formed_input segs \<longleftrightarrow>
     (\<forall>r\<in>set segs. count_list (map query_name segs) (query_name r) = 2)
     \<and> (\<forall>r1\<in>set segs. \<forall>r2\<in>set segs.
           query_name r1 = query_name r2 \<longrightarrow> key_of r1 = key_of r2)"

text \<open>The key of the first read with a given name.\<close>

definition key_of_name :: "aligned_segment list \<Rightarrow> string \<Rightarrow> coordinate_key" where
  "key_of_name segs n =
     (case find (\<lambda>r. query_name r = n) segs of None \<Rightarrow> ('''', 0, 0) | Some r \<Rightarrow> key_of r)"

text \<open>
  The invariant of the second pass on a well-formed input, with \<open>K\<close> the key of each
  name and \<open>rest\<close> the reads still to come: a waiting read has its mate in \<open>rest\<close>,
  the manifest owes exactly the names still to come, and a group in progress has names
  still owed at its key and holds pairs whose reads are both past.
\<close>

definition settled :: "(string \<Rightarrow> coordinate_key) \<Rightarrow> aligned_segment list \<Rightarrow> coordinate_key \<Rightarrow> paired_alignment \<Rightarrow> bool" where
  "settled K rest k p \<longleftrightarrow>
     query_name (left_alignment p) \<notin> query_name ` set rest
     \<and> query_name (right_alignment p) = query_name (left_alignment p)
     \<and> K (query_name (left_alignment p)) = k"

definition assembling :: "(string \<Rightarrow> coordinate_key) \<Rightarrow> fam_state \<Rightarrow> aligned_segment list \<Rightarrow> bool" where
  "assembling K s rest \<longleftrightarrow>
     (\<forall>r\<in>set rest. key_of r = K (query_name r))
     \<and> (\<forall>n r0. pairing_dict s n = Some r0 \<longrightarrow>
           query_name r0 = n \<and> count_list (map query_name rest) n = 1)
     \<and> (\<forall>n. pairing_dict s n = None \<longrightarrow>
           count_list (map query_name rest) n = 0 \<or> count_list (map query_name rest) n = 2)
     \<and> (\<forall>k. owed s k = {n \<in> query_name ` set rest. K n = k})
     \<and> (\<forall>k g. family_dict s k = Some g \<longrightarrow>
           owed s k \<noteq> {} \<and> (\<forall>p\<in>set g. settled K rest k p))"

text \<open>
  The reads with a given name that the pass holds: in groups already yielded, in the
  group in progress at the key of the name, or waiting for a mate.
\<close>

definition held :: "(string \<Rightarrow> coordinate_key) \<Rightarrow> string \<Rightarrow> fam_state \<Rightarrow> aligned_segment multiset" where
  "held K n s =
     filter_mset (\<lambda>r. query_name r = n)
       (mset (segments_of (concat (map snd (yielded s))))
        + mset (segments_of (dd_get [] (family_dict s) (K n))))
     + (case pairing_dict s n of None \<Rightarrow> {#} | Some r \<Rightarrow> {#r#})"

section \<open>Properties\<close>

subsection \<open>The coordinate key\<close>

lemma lwa_key_eq:
  "lwa_key (LightweightAlignment aseg) =
     (reference_name aseg,
      min (reference_start aseg) (next_reference_start aseg),
      max (reference_start aseg) (next_reference_start aseg))"
  by (simp add: LightweightAlignment_def Let_def min_def max_def)

text \<open>
  Claim C4. The key that \<open>LightweightAlignment\<close> computes for a read on chromosome \<open>c\<close>
  with own position \<open>a\<close> and mate position \<open>b\<close> is the key it computes for a read on
  \<open>c\<close> with own position \<open>b\<close> and mate position \<open>a\<close>, whatever the other
  fields of the two reads are: both mates of a pair, each recording the other's start,
  get the same key.
\<close>

theorem coordinate_key_symmetric:
  "lwa_key (LightweightAlignment
      \<lparr>query_name = n1, reference_name = c, reference_start = a,
       next_reference_start = b, query_sequence = q1, payload = x1\<rparr>)
   = lwa_key (LightweightAlignment
      \<lparr>query_name = n2, reference_name = c, reference_start = b,
       next_reference_start = a, query_sequence = q2, payload = x2\<rparr>)"
  by (simp add: lwa_key_eq min.commute max.commute)

subsection \<open>Ranking the tags\<close>

lemma distinct_count_tags:
  "distinct (map fst tc) \<Longrightarrow> distinct (map fst (count_tags g tc))"
  by (induction g arbitrary: tc) (simp_all add: Let_def distinct_update)

lemma map_of_count_tags:
  "map_of (count_tags g tc) t =
     (if t \<in> pair_tag ` set g \<or> t \<in> dom (map_of tc)
      then Some (dd_get 0 (map_of tc) t + int (occurrences g t)) else None)"
proof (induction g arbitrary: tc)
  case Nil
  show ?case by (auto simp: dd_get_def occurrences_def)
next
  case (Cons p g)
  show ?case
    unfolding count_tags.simps Let_def Cons.IH
    by (auto simp: update_conv' dd_get_def occurrences_def pair_tag_def split: option.splits)
qed

text \<open>The counting loop leaves one item per observed tag, holding its number of pairs.\<close>

lemma set_count_tags:
  "set (count_tags g []) = (\<lambda>t. (t, int (occurrences g t))) ` pair_tag ` set g"
proof -
  have d: "distinct (map fst (count_tags g []))"
    by (rule distinct_count_tags) simp
  have "(map_of (count_tags g []) t = Some c)
      = (t \<in> pair_tag ` set g \<and> c = int (occurrences g t))" for t c
    by (auto simp: map_of_count_tags dd_get_def)
  then have "((t, c) \<in> set (count_tags g []))
      = (t \<in> pair_tag ` set g \<and> c = int (occurrences g t))" for t c
    using map_of_eq_Some_iff [OF d, of t c] by simp
  then show ?thesis by auto
qed

lemma rank_tags_eq:
  "rank_tags g = map snd (map rank_key (sort_key rank_key (count_tags g [])))"
  by (simp add: rank_tags_def rank_key_def Let_def comp_def)

text \<open>Distinct tags have distinct sort keys, so the sorted keys increase strictly.\<close>

lemma rank_keys_strict:
  "sorted_wrt (<) (map rank_key (sort_key rank_key (count_tags g [])))"
proof -
  have d: "distinct (map fst (count_tags g []))"
    by (rule distinct_count_tags) simp
  have inj: "inj_on rank_key (set (count_tags g []))"
    using d by (auto simp: inj_on_def rank_key_def dest: eq_key_imp_eq_value)
  have "distinct (count_tags g [])"
    using d by (rule distinct_map [THEN iffD1, THEN conjunct1])
  then have "distinct (map rank_key (sort_key rank_key (count_tags g [])))"
    using inj by (simp add: distinct_map)
  then show ?thesis by (simp add: strict_sorted_iff)
qed

lemma rank_tags_set: "set (rank_tags g) = pair_tag ` set g"
  by (simp add: rank_tags_def Let_def set_count_tags image_image)

lemma rank_tags_distinct: "distinct (rank_tags g)"
  using distinct_count_tags [of "[]" g]
  by (simp add: rank_tags_def Let_def distinct_map inj_on_def)

lemma rank_tags_order:
  "sorted_wrt (\<lambda>t u. occurrences g u < occurrences g t
                   \<or> (occurrences g u = occurrences g t \<and> t < u)) (rank_tags g)"
proof -
  have "sorted_wrt (\<lambda>x y. rank_key x < rank_key y) (sort_key rank_key (count_tags g []))"
    using rank_keys_strict [of g] by (simp add: sorted_wrt_map)
  then have "sorted_wrt
      (\<lambda>x y. occurrences g (fst y) < occurrences g (fst x)
            \<or> (occurrences g (fst y) = occurrences g (fst x) \<and> fst x < fst y))
      (sort_key rank_key (count_tags g []))"
    by (rule sorted_wrt_mono_rel [rotated]) (auto simp: set_count_tags rank_key_def)
  then show ?thesis by (simp add: rank_tags_def Let_def sorted_wrt_map)
qed

text \<open>The order on tags is the lexicographic one on (left prefix, right prefix).\<close>

lemma tag_less_iff:
  "(t :: tag) < u \<longleftrightarrow> fst t < fst u \<or> (fst t = fst u \<and> snd t < snd u)"
  by (cases t; cases u) (auto simp: less_prod_def)

text \<open>
  Claim C6. The ranking of a coordinate group holds exactly the tags observed in the
  group, each once, and it is ordered: of two entries, the earlier one occurs in more
  pairs of the group, or in as many and is the smaller tag in the lexicographic order on
  (left prefix, right prefix).
\<close>

theorem rank_tags_sorted_by_count:
  "set (rank_tags g) = pair_tag ` set g
   \<and> distinct (rank_tags g)
   \<and> sorted_wrt (\<lambda>t u. occurrences g u < occurrences g t
                     \<or> (occurrences g u = occurrences g t \<and> t < u)) (rank_tags g)"
  by (simp add: rank_tags_set rank_tags_distinct rank_tags_order)

lemma rank_tags_cong_tags:
  assumes "mset (map pair_tag g) = mset (map pair_tag g')"
  shows "rank_tags g = rank_tags g'"
proof -
  have occ: "occurrences g = occurrences g'"
    using assms by (auto simp: occurrences_def fun_eq_iff simp flip: count_mset)
  have s: "pair_tag ` set g = pair_tag ` set g'"
    using mset_eq_setD [OF assms] by simp
  have "set (count_tags g []) = set (count_tags g' [])"
    by (simp add: set_count_tags occ s)
  then have "map rank_key (sort_key rank_key (count_tags g []))
      = map rank_key (sort_key rank_key (count_tags g' []))"
    using rank_keys_strict [of g] rank_keys_strict [of g']
    by (intro sorted_distinct_set_unique) (simp_all add: strict_sorted_iff)
  then show ?thesis by (simp only: rank_tags_eq)
qed

text \<open>
  Claim C7. The ranking is a function of the multiset of tags of the group: two groups
  with the same tags in the same numbers get the same ranking. In particular the
  order in which the pairs of a group are iterated does not change the ranking.
\<close>

theorem rank_tags_order_independent:
  "(mset (map pair_tag g) = mset (map pair_tag g') \<longrightarrow> rank_tags g = rank_tags g')
   \<and> (mset g = mset g' \<longrightarrow> rank_tags g = rank_tags g')"
proof (intro conjI impI)
  assume "mset (map pair_tag g) = mset (map pair_tag g')"
  then show "rank_tags g = rank_tags g'" by (rule rank_tags_cong_tags)
next
  assume "mset g = mset g'"
  then have "mset (map pair_tag g) = mset (map pair_tag g')" by simp
  then show "rank_tags g = rank_tags g'" by (rule rank_tags_cong_tags)
qed

theorem rank_tags_order_independent_witness:
  "mset example_group = mset (rev example_group)
   \<and> mset (map pair_tag example_group) = mset (map pair_tag (rev example_group))
   \<and> rank_tags example_group = rank_tags (rev example_group)"
  using rank_tags_order_independent [of example_group "rev example_group"] by simp

subsection \<open>Partitioning by tag\<close>

lemma cluster_of_update:
  "cluster_of (AList.update k v al) t = (if t = k then v else cluster_of al t)"
  by (simp add: cluster_of_def dd_get_def update_conv')

text \<open>The inner loop does what the first-fit rule says.\<close>

lemma assign_tag_eq:
  "assign_tag ranked p al =
     (case first_matching_tag ranked p of
        None \<Rightarrow> al
      | Some t \<Rightarrow> AList.update t (List.insert p (cluster_of al t)) al)"
  by (induction ranked) (simp_all add: first_matching_tag_def tag_matches_def cluster_of_def)

lemma cluster_of_assign_tag:
  "set (cluster_of (assign_tag ranked p al) t) =
     set (cluster_of al t) \<union> (if first_matching_tag ranked p = Some t then {p} else {})"
  by (auto simp: assign_tag_eq cluster_of_update split: option.splits)

lemma cluster_of_loop:
  "set (cluster_of (tag_families_loop g ranked al) t) =
     set (cluster_of al t) \<union> {p \<in> set g. first_matching_tag ranked p = Some t}"
  by (induction g arbitrary: al) (auto simp: cluster_of_assign_tag)

lemma insert_not_Nil: "List.insert x xs \<noteq> []"
  by (auto simp: List.insert_def)

lemma wf_update:
  "well_formed_clusters al \<Longrightarrow> v \<noteq> [] \<Longrightarrow> well_formed_clusters (AList.update k v al)"
  unfolding well_formed_clusters_def
  by (induction al) (auto simp: distinct_update dom_update image_iff)

lemma wf_assign: "well_formed_clusters al \<Longrightarrow> well_formed_clusters (assign_tag ranked p al)"
  by (auto simp: assign_tag_eq wf_update insert_not_Nil split: option.splits)

lemma wf_loop:
  "well_formed_clusters al \<Longrightarrow> well_formed_clusters (tag_families_loop g ranked al)"
  by (induction g arbitrary: al) (simp_all add: wf_assign)

text \<open>The values of a dictionary without empty clusters are its non-empty clusters.\<close>

lemma wf_values:
  assumes "well_formed_clusters al"
  shows "set ` set (map snd al) = {set (cluster_of al t) | t. cluster_of al t \<noteq> []}"
proof -
  have d: "distinct (map fst al)" and ne: "[] \<notin> snd ` set al"
    using assms by (simp_all add: well_formed_clusters_def)
  have "set (map snd al) = {cluster_of al t | t. cluster_of al t \<noteq> []}"
  proof (intro set_eqI iffI)
    fix c assume "c \<in> set (map snd al)"
    then obtain t where m: "(t, c) \<in> set al" by auto
    then have "map_of al t = Some c" using d by simp
    moreover have "c \<noteq> []" using m ne by force
    ultimately have "c = cluster_of al t \<and> cluster_of al t \<noteq> []"
      by (simp add: cluster_of_def dd_get_def)
    then show "c \<in> {cluster_of al t | t. cluster_of al t \<noteq> []}"
      by blast
  next
    fix c assume "c \<in> {cluster_of al t | t. cluster_of al t \<noteq> []}"
    then obtain t where "c = cluster_of al t" "cluster_of al t \<noteq> []" by auto
    then have "map_of al t = Some c"
      by (auto simp: cluster_of_def dd_get_def split: option.splits)
    then show "c \<in> set (map snd al)"
      by (force dest: map_of_SomeD)
  qed
  then show ?thesis by auto
qed

lemma loop_cluster:
  "set (cluster_of (tag_families_loop g ranked []) t)
     = {p \<in> set g. first_matching_tag ranked p = Some t}"
  using cluster_of_loop [of g ranked "[]" t] by (simp add: cluster_of_def dd_get_def)

lemma build_tag_families_classes:
  "set ` set (build_tag_families g ranked) =
     {{p \<in> set g. first_matching_tag ranked p = Some t} | t.
        {p \<in> set g. first_matching_tag ranked p = Some t} \<noteq> {}}"
proof -
  have w: "well_formed_clusters (tag_families_loop g ranked [])"
    by (rule wf_loop) (simp add: well_formed_clusters_def)
  have "(cluster_of (tag_families_loop g ranked []) t \<noteq> [])
      = ({p \<in> set g. first_matching_tag ranked p = Some t} \<noteq> {})" for t
    using loop_cluster [of g ranked t] by (metis set_empty)
  then show ?thesis
    unfolding build_tag_families_def wf_values [OF w] by (simp add: loop_cluster)
qed

text \<open>
  Claim C5. For every group and every ranking, the cluster that the partitioning loop
  stores under a tag holds exactly the pairs of the group whose first matching tag in
  rank order is that tag, where a pair matches a tag as soon as one of its two prefixes
  equals the tag's prefix on that side; and the clusters returned are exactly the
  non-empty ones among these.
\<close>

theorem build_tag_families_first_fit:
  "set (cluster_of (tag_families_loop g ranked []) t)
     = {p \<in> set g. first_matching_tag ranked p = Some t}
   \<and> set ` set (build_tag_families g ranked) =
       {{p \<in> set g. first_matching_tag ranked p = Some t} | t.
          {p \<in> set g. first_matching_tag ranked p = Some t} \<noteq> {}}"
  by (simp only: loop_cluster build_tag_families_classes)

subsection \<open>Partitioning with the group's own ranking\<close>

lemma total_size_update:
  "total_size (AList.update k v al) + length (cluster_of al k) = total_size al + length v"
  by (induction al) (auto simp: total_size_def cluster_of_def dd_get_def)

lemma total_size_assign:
  assumes "\<forall>t. p \<notin> set (cluster_of al t)" and "first_matching_tag ranked p \<noteq> None"
  shows "total_size (assign_tag ranked p al) = Suc (total_size al)"
proof -
  from assms(2) obtain t where t: "first_matching_tag ranked p = Some t" by auto
  have "p \<notin> set (cluster_of al t)" using assms(1) by blast
  then have "length (List.insert p (cluster_of al t)) = Suc (length (cluster_of al t))"
    by simp
  then show ?thesis
    using total_size_update [of t "List.insert p (cluster_of al t)" al]
    by (simp add: assign_tag_eq t)
qed

lemma total_size_loop:
  assumes "distinct g" and "\<forall>t. set g \<inter> set (cluster_of al t) = {}"
    and "\<forall>p\<in>set g. first_matching_tag ranked p \<noteq> None"
  shows "total_size (tag_families_loop g ranked al) = total_size al + length g"
  using assms
proof (induction g arbitrary: al)
  case Nil
  then show ?case by simp
next
  case (Cons p g)
  have a: "total_size (assign_tag ranked p al) = Suc (total_size al)"
    using Cons.prems by (intro total_size_assign) auto
  have "\<forall>t. set g \<inter> set (cluster_of (assign_tag ranked p al) t) = {}"
    using Cons.prems by (auto simp: cluster_of_assign_tag)
  then have "total_size (tag_families_loop g ranked (assign_tag ranked p al)) =
      total_size (assign_tag ranked p al) + length g"
    using Cons.prems by (intro Cons.IH) auto
  then show ?case by (simp add: a)
qed

lemma own_tag_matches: "tag_matches p (pair_tag p)"
  by (simp add: tag_matches_def pair_tag_def)

lemma find_not_None: "t \<in> set ts \<Longrightarrow> P t \<Longrightarrow> find P ts \<noteq> None"
  by (auto simp: find_None_iff)

lemma ranked_own_tag: "p \<in> set g \<Longrightarrow> first_matching_tag (rank_tags g) p \<noteq> None"
  unfolding first_matching_tag_def
  by (rule find_not_None [of "pair_tag p"]) (simp_all add: rank_tags_set own_tag_matches)

lemma sizes_sum:
  assumes "distinct g"
  shows "sum_list (map length (build_tag_families g (rank_tags g))) = length g"
proof -
  have "total_size (tag_families_loop g (rank_tags g) []) = total_size [] + length g"
    using assms by (intro total_size_loop) (auto simp: cluster_of_def dd_get_def ranked_own_tag)
  then show ?thesis
    by (simp add: build_tag_families_def total_size_def comp_def)
qed

lemma every_pair_assigned:
  assumes "p \<in> set g"
  shows "\<exists>c\<in>set (build_tag_families g (rank_tags g)). p \<in> set c"
proof -
  obtain t where t: "first_matching_tag (rank_tags g) p = Some t"
    using ranked_own_tag [OF assms] by auto
  let ?C = "{q \<in> set g. first_matching_tag (rank_tags g) q = Some t}"
  have "p \<in> ?C" using assms t by simp
  then have "?C \<in> set ` set (build_tag_families g (rank_tags g))"
    unfolding build_tag_families_classes by blast
  then show ?thesis using \<open>p \<in> ?C\<close> by auto
qed

lemma example_distinct: "distinct example_group"
  by (simp add: example_group_def example_pair_def example_read_def PairedAlignment_def)

text \<open>
  Claim C10. When a coordinate group (a set of pairs, so without repetition) is
  partitioned with the ranking computed from the same group, every pair of the group
  matches a ranked tag, its own at least, so the inner loop never runs off the end of
  the ranking; every pair is in some returned cluster, and the cluster sizes add up to
  the size of the group.
\<close>

theorem own_ranking_drops_no_pair:
  assumes "distinct g"
  shows "(\<forall>p\<in>set g. first_matching_tag (rank_tags g) p \<noteq> None)
    \<and> (\<forall>p\<in>set g. \<exists>c\<in>set (build_tag_families g (rank_tags g)). p \<in> set c)
    \<and> sum_list (map length (build_tag_families g (rank_tags g))) = length g"
  using assms by (simp add: ranked_own_tag every_pair_assigned sizes_sum)

theorem own_ranking_drops_no_pair_witness:
  "distinct example_group
   \<and> first_matching_tag (rank_tags example_group) (example_pair ''d'' ''ATTNNN'' ''CCCNNN'')
       \<noteq> None
   \<and> sum_list (map length (build_tag_families example_group (rank_tags example_group))) = 4"
  using own_ranking_drops_no_pair [OF example_distinct] example_distinct
  by (simp add: example_group_def)

subsection \<open>The worked example\<close>

lemma set_fold_insert: "set (fold List.insert g c) = set g \<union> set c"
  by (induction g arbitrary: c) auto

lemma distinct_fold_insert: "distinct c \<Longrightarrow> distinct (fold List.insert g c)"
  by (induction g arbitrary: c) auto

lemma loop_single_cluster:
  assumes "\<forall>p\<in>set g. first_matching_tag ranked p = Some t0"
  shows "tag_families_loop g ranked [(t0, c)] = [(t0, fold List.insert g c)]"
  using assms
  by (induction g arbitrary: c) (simp_all add: assign_tag_eq cluster_of_def dd_get_def)

lemma loop_one_tag:
  assumes "\<forall>p\<in>set g. first_matching_tag ranked p = Some t0" and "g \<noteq> []"
  shows "\<exists>c. build_tag_families g ranked = [c] \<and> set c = set g \<and> distinct c"
proof -
  obtain p g' where g: "g = p # g'" using assms(2) by (cases g) auto
  have "tag_families_loop g ranked [] = tag_families_loop g' ranked [(t0, [p])]"
    using assms(1) by (simp add: g assign_tag_eq cluster_of_def dd_get_def)
  also have "\<dots> = [(t0, fold List.insert g' [p])]"
    using assms(1) by (intro loop_single_cluster) (simp add: g)
  finally show ?thesis
    by (auto simp: build_tag_families_def set_fold_insert distinct_fold_insert g)
qed

lemma example_tags:
  "mset (map pair_tag example_group) =
     {#(''AAA'', ''CCC''), (''AAA'', ''CCC''), (''AAA'', ''CCC''), (''ATT'', ''CCC'')#}"
  by (simp add: example_group_def example_pair_def example_read_def pair_tag_def
      PairedAlignment_def left_tag_id_def right_tag_id_def)

lemma example_rank: "rank_tags example_group = [(''AAA'', ''CCC''), (''ATT'', ''CCC'')]"
  by code_simp

text \<open>
  Claim C2, as stated, fails on the example: the pair tagged (ATT, CCC) matches the
  first-ranked tag (AAA, CCC) on its right prefix, so the partitioning puts all four
  pairs into one cluster. One representative pair is written, two records: the mates of
  whichever of the four pairs \<^verbatim>\<open>set.pop\<close> picks.
\<close>

theorem example_group_two_clusters_counterexample:
  "map length (build_tag_families example_group (rank_tags example_group)) = [4]
   \<and> length (build_tag_families example_group (rank_tags example_group)) \<noteq> 2
   \<and> write_coord_family example_group [] =
       {Inr [example_read ''a'' 100 200 ''AAANNN'', example_read ''a'' 200 100 ''CCCNNN''],
        Inr [example_read ''b'' 100 200 ''AAANNN'', example_read ''b'' 200 100 ''CCCNNN''],
        Inr [example_read ''c'' 100 200 ''AAANNN'', example_read ''c'' 200 100 ''CCCNNN''],
        Inr [example_read ''d'' 100 200 ''ATTNNN'', example_read ''d'' 200 100 ''CCCNNN'']}"
proof -
  have fam: "build_tag_families example_group (rank_tags example_group)
      = [[example_pair ''d'' ''ATTNNN'' ''CCCNNN'', example_pair ''c'' ''AAANNN'' ''CCCNNN'',
          example_pair ''b'' ''AAANNN'' ''CCCNNN'', example_pair ''a'' ''AAANNN'' ''CCCNNN'']]"
    by code_simp
  have "write_coord_family example_group [] =
       {Inr [example_read ''a'' 100 200 ''AAANNN'', example_read ''a'' 200 100 ''CCCNNN''],
        Inr [example_read ''b'' 100 200 ''AAANNN'', example_read ''b'' 200 100 ''CCCNNN''],
        Inr [example_read ''c'' 100 200 ''AAANNN'', example_read ''c'' 200 100 ''CCCNNN''],
        Inr [example_read ''d'' 100 200 ''ATTNNN'', example_read ''d'' 200 100 ''CCCNNN'']}"
    by (auto simp: write_coord_family_def fam build_consensus_pair_def example_pair_def
        PairedAlignment_def)
  then show ?thesis by (simp add: fam)
qed

text \<open>
  Claim C2, amended. For every coordinate group of four pairs whose tags are (AAA, CCC)
  three times and (ATT, CCC) once, the ranking is [(AAA, CCC), (ATT, CCC)], the
  partitioning returns a single cluster holding all four pairs, and what is written for
  the coordinate is one representative pair: the two mates of one pair of the group, any
  of its pairs being a possible pick.
\<close>

theorem example_group_one_cluster:
  assumes "distinct g"
    and "mset (map pair_tag g) =
      {#(''AAA'', ''CCC''), (''AAA'', ''CCC''), (''AAA'', ''CCC''), (''ATT'', ''CCC'')#}"
  shows "length g = 4 \<and> rank_tags g = [(''AAA'', ''CCC''), (''ATT'', ''CCC'')]
    \<and> (\<exists>c. build_tag_families g (rank_tags g) = [c] \<and> set c = set g \<and> length c = 4)
    \<and> write_coord_family g [] = (\<lambda>p. Inr [left_alignment p, right_alignment p]) ` set g"
proof -
  have len: "length g = 4"
    using arg_cong [OF assms(2), of size] by simp
  have r: "rank_tags g = [(''AAA'', ''CCC''), (''ATT'', ''CCC'')]"
  proof -
    have "mset (map pair_tag g) = mset (map pair_tag example_group)"
      by (simp only: assms(2) example_tags)
    then have "rank_tags g = rank_tags example_group" by (rule rank_tags_cong_tags)
    then show ?thesis by (simp only: example_rank)
  qed
  have "pair_tag ` set g = {(''AAA'', ''CCC''), (''ATT'', ''CCC'')}"
    using arg_cong [OF assms(2), of set_mset] by simp
  then have "\<forall>p\<in>set g. right_tag_id p = ''CCC''"
    by (auto simp: pair_tag_def dest!: equalityD1)
  then have fm: "\<forall>p\<in>set g. first_matching_tag (rank_tags g) p = Some (''AAA'', ''CCC'')"
    by (simp add: r first_matching_tag_def tag_matches_def)
  have "g \<noteq> []" using len by auto
  from loop_one_tag [OF fm this] obtain c
    where c: "build_tag_families g (rank_tags g) = [c]" "set c = set g" "distinct c"
    by blast
  have lc: "length c = 4"
    using c(2,3) assms(1) len by (metis distinct_card)
  then have "c \<noteq> []" by auto
  then have "write_coord_family g [] = (\<lambda>p. Inr [left_alignment p, right_alignment p]) ` set c"
    by (auto simp: write_coord_family_def c(1) build_consensus_pair_def)
  then have "write_coord_family g [] = (\<lambda>p. Inr [left_alignment p, right_alignment p]) ` set g"
    by (simp only: c(2))
  then show ?thesis using len r c lc by blast
qed

theorem example_group_one_cluster_witness:
  "distinct example_group \<and> length example_group = 4
    \<and> rank_tags example_group = [(''AAA'', ''CCC''), (''ATT'', ''CCC'')]
    \<and> (\<exists>c. build_tag_families example_group (rank_tags example_group) = [c]
          \<and> set c = set example_group \<and> length c = 4)"
  using example_group_one_cluster [OF example_distinct example_tags] example_distinct by blast

subsection \<open>The second pass, step by step\<close>

text \<open>The four ways an iteration of the loop can go.\<close>

lemma step_store:
  assumes "pairing_dict s (query_name aseg) = None"
  shows "families_step aseg s =
    (s\<lparr>pairing_dict := (pairing_dict s)(query_name aseg \<mapsto> aseg)\<rparr>, None)"
  using assms by (simp add: families_step_def)

lemma step_raise:
  assumes "pairing_dict s (query_name aseg) = Some mate"
    and "query_name aseg \<notin> owed s (key_of aseg)"
  shows "families_step aseg s =
    (s\<lparr>pairing_dict := (pairing_dict s)(query_name aseg := None),
       family_dict := (family_dict s)(key_of aseg \<mapsto> new_group s mate aseg),
       manifest := (manifest s)(key_of aseg \<mapsto> owed s (key_of aseg))\<rparr>, Some KeyError)"
  using assms by (simp add: families_step_def Let_def key_of_def owed_def new_group_def)

lemma step_keep:
  assumes "pairing_dict s (query_name aseg) = Some mate"
    and "query_name aseg \<in> owed s (key_of aseg)"
    and "owed s (key_of aseg) - {query_name aseg} \<noteq> {}"
  shows "families_step aseg s =
    (s\<lparr>pairing_dict := (pairing_dict s)(query_name aseg := None),
       family_dict := (family_dict s)(key_of aseg \<mapsto> new_group s mate aseg),
       manifest := (manifest s)(key_of aseg \<mapsto> owed s (key_of aseg) - {query_name aseg})\<rparr>,
     None)"
  using assms by (simp add: families_step_def Let_def key_of_def owed_def new_group_def)

lemma step_yield:
  assumes "pairing_dict s (query_name aseg) = Some mate"
    and "query_name aseg \<in> owed s (key_of aseg)"
    and "owed s (key_of aseg) - {query_name aseg} = {}"
  shows "families_step aseg s =
    (s\<lparr>pairing_dict := (pairing_dict s)(query_name aseg := None),
       family_dict := (family_dict s)(key_of aseg := None),
       manifest := (manifest s)(key_of aseg \<mapsto> {}),
       yielded := yielded s @ [(key_of aseg, new_group s mate aseg)]\<rparr>,
     None)"
proof -
  have "families_step aseg s =
    (s\<lparr>pairing_dict := (pairing_dict s)(query_name aseg := None),
       family_dict := (family_dict s)(key_of aseg := None),
       manifest := (manifest s)(key_of aseg \<mapsto> owed s (key_of aseg) - {query_name aseg}),
       yielded := yielded s @ [(key_of aseg, new_group s mate aseg)]\<rparr>,
     None)"
    using assms by (simp add: families_step_def Let_def key_of_def owed_def new_group_def)
  then show ?thesis by (simp only: assms(3))
qed

lemma step_cases [consumes 1, case_names store raise keep yield]:
  assumes "families_step aseg s = (s', e)"
  obtains
    (store) "pairing_dict s (query_name aseg) = None" "e = None"
      "s' = s\<lparr>pairing_dict := (pairing_dict s)(query_name aseg \<mapsto> aseg)\<rparr>"
  | (raise) mate where "pairing_dict s (query_name aseg) = Some mate"
      "query_name aseg \<notin> owed s (key_of aseg)" "e = Some KeyError"
      "s' = s\<lparr>pairing_dict := (pairing_dict s)(query_name aseg := None),
       family_dict := (family_dict s)(key_of aseg \<mapsto> new_group s mate aseg),
       manifest := (manifest s)(key_of aseg \<mapsto> owed s (key_of aseg))\<rparr>"
  | (keep) mate where "pairing_dict s (query_name aseg) = Some mate"
      "query_name aseg \<in> owed s (key_of aseg)"
      "owed s (key_of aseg) - {query_name aseg} \<noteq> {}" "e = None"
      "s' = s\<lparr>pairing_dict := (pairing_dict s)(query_name aseg := None),
       family_dict := (family_dict s)(key_of aseg \<mapsto> new_group s mate aseg),
       manifest := (manifest s)(key_of aseg \<mapsto> owed s (key_of aseg) - {query_name aseg})\<rparr>"
  | (yield) mate where "pairing_dict s (query_name aseg) = Some mate"
      "query_name aseg \<in> owed s (key_of aseg)"
      "owed s (key_of aseg) - {query_name aseg} = {}" "e = None"
      "s' = s\<lparr>pairing_dict := (pairing_dict s)(query_name aseg := None),
       family_dict := (family_dict s)(key_of aseg := None),
       manifest := (manifest s)(key_of aseg \<mapsto> {}),
       yielded := yielded s @ [(key_of aseg, new_group s mate aseg)]\<rparr>"
proof (cases "pairing_dict s (query_name aseg)")
  case None
  then show ?thesis using assms store by (simp add: step_store)
next
  case (Some mate)
  show ?thesis
  proof (cases "query_name aseg \<in> owed s (key_of aseg)")
    case False
    then show ?thesis using assms Some raise by (simp add: step_raise)
  next
    case True
    show ?thesis
    proof (cases "owed s (key_of aseg) - {query_name aseg} = {}")
      case True
      then show ?thesis using assms Some \<open>query_name aseg \<in> owed s (key_of aseg)\<close> yield
        by (simp add: step_yield)
    next
      case False
      then show ?thesis using assms Some True keep by (simp add: step_keep)
    qed
  qed
qed

lemma loop_invariant:
  assumes "families_loop segs s = (s', e)"
    and "P s"
    and "\<And>aseg s s' e. P s \<Longrightarrow> families_step aseg s = (s', e) \<Longrightarrow> P s'"
  shows "P s'"
  using assms(1,2)
proof (induction segs arbitrary: s)
  case Nil
  then show ?case by simp
next
  case (Cons aseg segs)
  obtain s1 e1 where st: "families_step aseg s = (s1, e1)" by (cases "families_step aseg s")
  have "P s1" using assms(3) Cons.prems(2) st by blast
  then show ?case
    using Cons.IH [of s1] Cons.prems(1) st by (cases e1) auto
qed

lemma yielded_keys_init [simp]: "yielded_keys (families_init m) = {}"
  by (simp add: yielded_keys_def families_init_def)

lemma yielded_keys_simps [simp]:
  "yielded_keys (s\<lparr>pairing_dict := a\<rparr>) = yielded_keys s"
  "yielded_keys (s\<lparr>family_dict := b\<rparr>) = yielded_keys s"
  "yielded_keys (s\<lparr>manifest := c\<rparr>) = yielded_keys s"
  "yielded_keys (s\<lparr>yielded := ys @ [(k, g)]\<rparr>) = insert k (fst ` set ys)"
  "fst ` set (yielded s) = yielded_keys s"
  by (simp_all add: yielded_keys_def)

lemma owed_simps [simp]:
  "owed (s\<lparr>pairing_dict := a\<rparr>) = owed s"
  "owed (s\<lparr>family_dict := b\<rparr>) = owed s"
  "owed (s\<lparr>yielded := d\<rparr>) = owed s"
  "owed (s\<lparr>manifest := m\<rparr>) k = dd_get {} m k"
  "dd_get {} ((manifest s)(k' \<mapsto> v)) k = (if k = k' then v else owed s k)"
  by (auto simp: owed_def dd_get_def fun_eq_iff)

lemmas run_defs = families_step_def Let_def families_init_def coord_manifest_of_def
  build_coordinate_read_name_manifest_def dd_get_def LightweightAlignment_def
  PairedAlignment_def example_read_def build_coordinate_families_def

lemma pair_run:
  "families_loop pair_reads (families_init (coord_manifest_of pair_reads)) =
     (\<lparr>family_dict = Map.empty, pairing_dict = Map.empty,
       manifest = [(''chr1'', 100, 200) \<mapsto> {}],
       yielded = [((''chr1'', 100, 200),
          [PairedAlignment (example_read ''a'' 100 200 ''AAANNN'') (example_read ''a'' 200 100 ''CCCNNN'')])]\<rparr>, None)"
  by (simp add: pair_reads_def run_defs fun_eq_iff)

subsection \<open>The manifest during the second pass\<close>

lemma step_shrinks:
  assumes "families_step aseg s = (s', e)"
  shows "owed s' k \<subseteq> owed s k \<and> (k \<in> dom (manifest s) \<longrightarrow> k \<in> dom (manifest s'))"
  using assms by (cases rule: step_cases) auto

lemma loop_shrinks:
  assumes "families_loop segs s = (s', e)"
  shows "owed s' k \<subseteq> owed s k \<and> (k \<in> dom (manifest s) \<longrightarrow> k \<in> dom (manifest s'))"
proof -
  let ?P = "\<lambda>t. owed t k \<subseteq> owed s k \<and> (k \<in> dom (manifest s) \<longrightarrow> k \<in> dom (manifest t))"
  have "?P s'"
  proof (rule loop_invariant [OF assms, where P = ?P])
    show "?P s" by simp
  next
    fix aseg t t' e'
    assume "?P t" and "families_step aseg t = (t', e')"
    then show "?P t'" using step_shrinks [of aseg t t' e' k] by blast
  qed
  then show ?thesis .
qed

lemma step_empties:
  assumes "families_step aseg s = (s', e)" and "owed s k \<noteq> {}" and "owed s' k = {}"
  shows "manifest s' k = Some {} \<and> e = None \<and> family_dict s' k = None
    \<and> (\<exists>fam. yielded s' = yielded s @ [(k, fam)])"
  using assms(1)
proof (cases rule: step_cases)
  case store
  then show ?thesis using assms(2,3) by simp
next
  case (raise mate)
  then show ?thesis using assms(2,3) by (simp split: if_splits)
next
  case (keep mate)
  then show ?thesis using assms(2,3) by (simp split: if_splits)
next
  case (yield mate)
  then have "k = key_of aseg" using assms(2,3) by (simp split: if_splits)
  then show ?thesis using yield by simp
qed

text \<open>
  Claim C9, as stated, fails on a complete pair: when the second mate arrives the set of
  names owed at the key becomes empty and the group is yielded, but the manifest keeps
  the key, now mapped to the empty set.
\<close>

theorem manifest_entry_kept_counterexample:
  "manifest (fst (families_loop pair_reads (families_init (coord_manifest_of pair_reads))))
     (''chr1'', 100, 200) = Some {}
   \<and> map fst (yielded (fst (families_loop pair_reads
        (families_init (coord_manifest_of pair_reads))))) = [(''chr1'', 100, 200)]"
  by (simp add: pair_run)

text \<open>
  Claim C9, amended. During the second pass no name is ever added to the manifest and no
  entry is ever removed from it: for every key the set of owed names after any number of
  iterations is a subset of the set before, and a key of the manifest stays a key. When
  an iteration empties the set of a key, the entry stays in the mapping, holding the empty
  set; that iteration raises no error, removes the key's group from \<open>family_dict\<close>
  and yields it.
\<close>

theorem manifest_only_shrinks:
  "(families_loop segs s = (s', e) \<longrightarrow>
      owed s' k \<subseteq> owed s k \<and> (k \<in> dom (manifest s) \<longrightarrow> k \<in> dom (manifest s')))
   \<and> (families_step aseg t = (t', e') \<and> owed t k \<noteq> {} \<and> owed t' k = {} \<longrightarrow>
        manifest t' k = Some {} \<and> e' = None \<and> family_dict t' k = None
        \<and> (\<exists>fam. yielded t' = yielded t @ [(k, fam)]))"
  using loop_shrinks [of segs s s' e k] step_empties [of aseg t t' e' k] by blast

theorem manifest_only_shrinks_witness:
  "owed waiting_state (''chr1'', 100, 200) = {''a''}
   \<and> owed (fst (families_step (example_read ''a'' 200 100 ''CCCNNN'') waiting_state))
       (''chr1'', 100, 200) = {}
   \<and> manifest (fst (families_step (example_read ''a'' 200 100 ''CCCNNN'') waiting_state))
       (''chr1'', 100, 200) = Some {}
   \<and> family_dict (fst (families_step (example_read ''a'' 200 100 ''CCCNNN'') waiting_state))
       (''chr1'', 100, 200) = None
   \<and> snd (families_step (example_read ''a'' 200 100 ''CCCNNN'') waiting_state) = None"
proof -
  let ?k = "(''chr1'', 100, 200) :: coordinate_key"
  let ?r2 = "example_read ''a'' 200 100 ''CCCNNN''"
  obtain t' e' where st: "families_step ?r2 waiting_state = (t', e')"
    by (cases "families_step ?r2 waiting_state")
  have o: "owed waiting_state ?k = {''a''}"
    by (simp add: waiting_state_def owed_def pair_reads_def run_defs)
  have o': "owed t' ?k = {}"
    using st by (auto simp: waiting_state_def owed_def pair_reads_def run_defs)
  have "owed waiting_state ?k \<noteq> {}" using o by simp
  with manifest_only_shrinks [of "[]" waiting_state waiting_state None ?k ?r2 waiting_state t' e'] st o'
  have "manifest t' ?k = Some {} \<and> e' = None \<and> family_dict t' ?k = None"
    by blast
  then show ?thesis using o o' by (simp only: st fst_conv snd_conv)
qed

subsection \<open>No key is yielded twice\<close>

lemma released_key_empty: "released s \<Longrightarrow> k \<in> yielded_keys s \<Longrightarrow> owed s k = {}"
  by (simp add: released_def owed_def dd_get_def)

lemma step_released:
  assumes "released s" and "families_step aseg s = (s', e)"
  shows "released s'"
  using assms(2)
proof (cases rule: step_cases)
  case store
  then show ?thesis using assms(1) by (simp add: released_def)
next
  case (raise mate)
  have "manifest s' k = Some {}" if "k \<in> yielded_keys s" for k
  proof (cases "k = key_of aseg")
    case True
    then have "owed s (key_of aseg) = {}" using released_key_empty [OF assms(1) that] by simp
    then show ?thesis using True by (simp add: raise(4))
  next
    case False
    then show ?thesis using that assms(1) by (simp add: raise(4) released_def)
  qed
  then show ?thesis using assms(1) by (simp add: released_def raise(4))
next
  case (keep mate)
  have nk: "key_of aseg \<notin> yielded_keys s"
    using released_key_empty [OF assms(1), of "key_of aseg"] keep(2) by blast
  have "manifest s' k = Some {}" if "k \<in> yielded_keys s" for k
  proof -
    have "k \<noteq> key_of aseg" using that nk by blast
    then show ?thesis using that assms(1) by (simp add: keep(5) released_def)
  qed
  then show ?thesis using assms(1) by (simp add: released_def keep(5))
next
  case (yield mate)
  have nk: "key_of aseg \<notin> yielded_keys s"
    using released_key_empty [OF assms(1), of "key_of aseg"] yield(2) by blast
  have "manifest s' k = Some {}" if "k \<in> yielded_keys s" for k
  proof -
    have "k \<noteq> key_of aseg" using that nk by blast
    then show ?thesis using that assms(1) by (simp add: yield(5) released_def)
  qed
  then show ?thesis using assms(1) nk by (simp add: released_def yield(5))
qed

lemma step_closed:
  assumes "released s" and "closed s" and "families_step aseg s = (s', None)"
  shows "closed s'"
  using assms(3)
proof (cases rule: step_cases)
  case store
  then show ?thesis using assms(2) by (simp add: closed_def)
next
  case (raise mate)
  then show ?thesis by simp
next
  case (keep mate)
  have nk: "key_of aseg \<notin> yielded_keys s"
    using released_key_empty [OF assms(1), of "key_of aseg"] keep(2) by blast
  have "family_dict s' k = None" if "k \<in> yielded_keys s" for k
  proof -
    have "k \<noteq> key_of aseg" using that nk by blast
    then show ?thesis using that assms(2) by (simp add: keep(5) closed_def)
  qed
  then show ?thesis by (simp add: closed_def keep(5))
next
  case (yield mate)
  have "family_dict s' k = None" if "k \<in> yielded_keys s" for k
    using that assms(2) by (simp add: yield(5) closed_def)
  then show ?thesis by (simp add: closed_def yield(5))
qed

lemma loop_released:
  assumes "families_loop segs s = (s', e)" and "released s"
  shows "released s'"
  using assms(1,2) step_released by (rule loop_invariant [where P = released])

lemma loop_closed:
  assumes "families_loop segs s = (s', None)" and "released s" and "closed s"
  shows "closed s'"
  using assms
proof (induction segs arbitrary: s)
  case Nil
  then show ?case by simp
next
  case (Cons aseg segs)
  obtain s1 e1 where st: "families_step aseg s = (s1, e1)" by (cases "families_step aseg s")
  have e1: "e1 = None" using Cons.prems(1) st by (cases e1) simp_all
  have l: "families_loop segs s1 = (s', None)" using Cons.prems(1) st e1 by simp
  have "released s1" using step_released [OF Cons.prems(2) st] .
  moreover have "closed s1" using step_closed [OF Cons.prems(2,3)] st e1 by simp
  ultimately show ?case using Cons.IH [OF l] by simp
qed

lemma init_released: "released (families_init m)" "closed (families_init m)"
  by (simp_all add: released_def closed_def) (simp add: families_init_def)

text \<open>
  Claim C1, as stated, fails when a read name occurs four times at one coordinate: the
  group of the key is yielded when the second read arrives; the fourth read completes
  another pair, which the loop inserts into \<open>family_dict\<close> under the key already
  yielded, before \<^verbatim>\<open>set.remove\<close> raises \<^verbatim>\<open>KeyError\<close> on the emptied manifest entry.
\<close>

theorem key_reopened_counterexample:
  "snd (families_loop reopened_reads (families_init (coord_manifest_of reopened_reads)))
     = Some KeyError
   \<and> map fst (yielded (fst (families_loop reopened_reads
        (families_init (coord_manifest_of reopened_reads))))) = [(''chr1'', 100, 200)]
   \<and> family_dict (fst (families_loop reopened_reads
        (families_init (coord_manifest_of reopened_reads)))) (''chr1'', 100, 200)
     = Some [PairedAlignment (example_read ''a'' 100 200 ''ATTNNN'')
               (example_read ''a'' 200 100 ''GGGNNN'')]"
  by (simp add: reopened_reads_def run_defs)

text \<open>
  Claim C1, amended. For every input read sequence and every manifest, at whatever point
  the pass has arrived or stopped: the keys of the groups yielded so far are pairwise
  distinct, each of them has an empty manifest entry, and, unless the pass has raised,
  none of them has a group in \<open>family_dict\<close>. So a key is yielded at most once, and
  an iteration that does not raise never inserts a pair under a key already yielded.
  The statement holds for every input, hence for every prefix of an input.
\<close>

theorem yield_at_most_once:
  assumes "families_loop segs (families_init m) = (s', e)"
  shows "distinct (map fst (yielded s'))
    \<and> (\<forall>k\<in>yielded_keys s'. manifest s' k = Some {})
    \<and> (e = None \<longrightarrow> (\<forall>k\<in>yielded_keys s'. family_dict s' k = None))"
proof -
  have r: "released s'" using assms init_released(1) by (rule loop_released)
  have "closed s'" if "e = None"
    using assms that init_released loop_closed by blast
  then show ?thesis using r by (simp add: released_def closed_def)
qed

theorem yield_at_most_once_witness:
  "distinct (map fst (yielded (fst (families_loop pair_reads
      (families_init (coord_manifest_of pair_reads))))))
   \<and> manifest (fst (families_loop pair_reads (families_init (coord_manifest_of pair_reads))))
       (''chr1'', 100, 200) = Some {}
   \<and> family_dict (fst (families_loop pair_reads (families_init (coord_manifest_of pair_reads))))
       (''chr1'', 100, 200) = None"
proof -
  obtain s' e where run: "families_loop pair_reads (families_init (coord_manifest_of pair_reads)) = (s', e)"
    by (cases "families_loop pair_reads (families_init (coord_manifest_of pair_reads))")
  have e: "e = None" using run by (simp add: pair_run)
  have k: "(''chr1'', 100, 200) \<in> yielded_keys s'"
    using run by (auto simp: pair_run yielded_keys_def simp del: yielded_keys_simps(5))
  from yield_at_most_once [OF run] e k
  have "distinct (map fst (yielded s')) \<and> manifest s' (''chr1'', 100, 200) = Some {}
      \<and> family_dict s' (''chr1'', 100, 200) = None"
    by blast
  then show ?thesis by (simp only: run fst_conv)
qed

subsection \<open>Reads without a mate\<close>

lemma lwa_name_eq: "lwa_name (LightweightAlignment r) = query_name r"
  by (simp add: LightweightAlignment_def Let_def)

lemma owed_manifest_loop:
  "dd_get {} (manifest_loop (map LightweightAlignment segs) af) k
     = dd_get {} af k \<union> {query_name r | r. r \<in> set segs \<and> key_of r = k}"
proof (induction segs arbitrary: af)
  case Nil
  show ?case by simp
next
  case (Cons a segs)
  let ?af = "af(key_of a \<mapsto> insert (query_name a) (dd_get {} af (key_of a)))"
  have unfold: "manifest_loop (map LightweightAlignment (a # segs)) af
      = manifest_loop (map LightweightAlignment segs) ?af"
    by (simp add: key_of_def lwa_name_eq)
  have head: "dd_get {} ?af k = dd_get {} af k \<union> (if key_of a = k then {query_name a} else {})"
    by (simp add: dd_get_def)
  have split: "{query_name r | r. r \<in> set (a # segs) \<and> key_of r = k}
      = (if key_of a = k then {query_name a} else {})
        \<union> {query_name r | r. r \<in> set segs \<and> key_of r = k}"
    by auto
  have "dd_get {} (manifest_loop (map LightweightAlignment (a # segs)) af) k
      = dd_get {} ?af k \<union> {query_name r | r. r \<in> set segs \<and> key_of r = k}"
    unfolding unfold by (rule Cons.IH)
  also have "\<dots> = dd_get {} af k \<union> {query_name r | r. r \<in> set (a # segs) \<and> key_of r = k}"
    unfolding head split by (simp only: Un_assoc)
  finally show ?case .
qed

lemma owed_init:
  "owed (families_init (coord_manifest_of segs)) k
     = {query_name r | r. r \<in> set segs \<and> key_of r = k}"
  by (simp add: owed_def families_init_def coord_manifest_of_def
      build_coordinate_read_name_manifest_def owed_manifest_loop) (simp add: dd_get_def)

lemma loop_append:
  "families_loop (pre @ post) s =
     (case families_loop pre s of
        (s1, None) \<Rightarrow> families_loop post s1
      | (s1, Some e) \<Rightarrow> (s1, Some e))"
  by (induction pre arbitrary: s) (auto split: prod.splits option.splits)

lemma step_withheld:
  assumes "families_step aseg s = (s', e)" and "withheld n k s"
    and "query_name aseg \<noteq> n \<or> pairing_dict s n = None"
  shows "withheld n k s' \<and>
     pairing_dict s' n = (if query_name aseg = n then Some aseg else pairing_dict s n)"
  using assms(1)
proof (cases rule: step_cases)
  case store
  then show ?thesis using assms(2) by (simp add: withheld_def)
next
  case (raise mate)
  then show ?thesis using assms(2,3) by (auto simp: withheld_def)
next
  case (keep mate)
  then show ?thesis using assms(2,3) by (auto simp: withheld_def)
next
  case (yield mate)
  have ne: "query_name aseg \<noteq> n" using yield(1) assms(3) by auto
  have "key_of aseg \<noteq> k"
  proof
    assume "key_of aseg = k"
    then have "n \<in> owed s (key_of aseg)" using assms(2) by (simp add: withheld_def)
    then show False using yield(3) ne by blast
  qed
  then show ?thesis using yield(5) assms(2) ne by (simp add: withheld_def)
qed

lemma loop_withheld:
  assumes "families_loop segs s = (s', e)" and "withheld n k s"
    and "n \<notin> query_name ` set segs"
  shows "withheld n k s' \<and> pairing_dict s' n = pairing_dict s n"
  using assms
proof (induction segs arbitrary: s)
  case Nil
  then show ?case by simp
next
  case (Cons aseg segs)
  obtain s1 e1 where st: "families_step aseg s = (s1, e1)" by (cases "families_step aseg s")
  have ne: "query_name aseg \<noteq> n" using Cons.prems(3) by auto
  have w: "withheld n k s1 \<and> pairing_dict s1 n = pairing_dict s n"
    using step_withheld [OF st Cons.prems(2)] ne by simp
  show ?case
  proof (cases e1)
    case None
    then have "families_loop segs s1 = (s', e)" using Cons.prems(1) st by simp
    then show ?thesis using Cons.IH [of s1] w Cons.prems(3) by simp
  next
    case (Some a)
    then show ?thesis using Cons.prems(1) st w by simp
  qed
qed

text \<open>
  Claim C8, as stated, fails on an input that is a single read: the pass ends without
  raising anything, yields no group, and the only outcome of \<open>main\<close> is an empty
  output.
\<close>

theorem orphan_raises_nothing_counterexample:
  "build_coordinate_families orphan_reads (coord_manifest_of orphan_reads) = ([], None)
   \<and> main orphan_reads = {Inr []}"
  by (simp add: orphan_reads_def run_defs main_def)

text \<open>
  Claim C8, amended. When a read name occurs exactly once in the input and the manifest
  is the one built from that input, no group is yielded for the key of that read, at
  whatever point the pass ends: the name stays owed at that key, and when the pass runs
  to its end without error the read is still waiting in \<open>pairing_dict\<close>. Nothing
  reports the orphan: the only error of the pass is the \<^verbatim>\<open>KeyError\<close> of \<^verbatim>\<open>set.remove\<close>.
\<close>

theorem orphan_key_never_yielded:
  assumes "count_list (map query_name segs) (query_name r) = 1" and "r \<in> set segs"
    and "families_loop segs (families_init (coord_manifest_of segs)) = (s', e)"
  shows "key_of r \<notin> yielded_keys s' \<and> query_name r \<in> owed s' (key_of r)
    \<and> (e = None \<longrightarrow> pairing_dict s' (query_name r) = Some r)"
proof -
  let ?n = "query_name r" and ?k = "key_of r"
  let ?s0 = "families_init (coord_manifest_of segs)"
  obtain pre post where sp: "segs = pre @ r # post"
    using assms(2) by (auto dest: split_list)
  have "count_list (map query_name pre) ?n = 0" "count_list (map query_name post) ?n = 0"
    using assms(1) by (simp_all add: sp)
  then have npre: "?n \<notin> query_name ` set pre" and npost: "?n \<notin> query_name ` set post"
    by (simp_all add: count_list_0_iff)
  have w0: "withheld ?n ?k ?s0"
  proof -
    have "yielded_keys ?s0 = {}" by simp
    moreover have "?n \<in> owed ?s0 ?k" using assms(2) unfolding owed_init by blast
    ultimately show ?thesis by (simp add: withheld_def)
  qed
  obtain s1 e1 where l1: "families_loop pre ?s0 = (s1, e1)" by (cases "families_loop pre ?s0")
  have w1: "withheld ?n ?k s1" and p1: "pairing_dict s1 ?n = None"
    using loop_withheld [OF l1 w0 npre] by (simp_all add: families_init_def)
  show ?thesis
  proof (cases e1)
    case (Some a)
    then have "s' = s1" "e = Some a" using assms(3) l1 by (simp_all add: sp loop_append)
    then show ?thesis using w1 by (simp add: withheld_def)
  next
    case None
    have st: "families_step r s1 = (s1\<lparr>pairing_dict := (pairing_dict s1)(?n \<mapsto> r)\<rparr>, None)"
      using p1 by (rule step_store)
    let ?s2 = "s1\<lparr>pairing_dict := (pairing_dict s1)(?n \<mapsto> r)\<rparr>"
    have w2: "withheld ?n ?k ?s2" using w1 by (simp add: withheld_def)
    have "families_loop post ?s2 = (s', e)"
      using assms(3) l1 None st by (simp add: sp loop_append)
    from loop_withheld [OF this w2 npost] show ?thesis by (simp add: withheld_def)
  qed
qed

theorem orphan_key_never_yielded_witness:
  "example_read ''a'' 100 200 ''AAANNN'' \<in> set orphan_reads
   \<and> count_list (map query_name orphan_reads) ''a'' = 1
   \<and> snd (families_loop orphan_reads (families_init (coord_manifest_of orphan_reads))) = None
   \<and> (''chr1'', 100, 200) \<notin> yielded_keys
        (fst (families_loop orphan_reads (families_init (coord_manifest_of orphan_reads))))
   \<and> pairing_dict
        (fst (families_loop orphan_reads (families_init (coord_manifest_of orphan_reads)))) ''a''
       = Some (example_read ''a'' 100 200 ''AAANNN'')"
proof -
  let ?r = "example_read ''a'' 100 200 ''AAANNN''"
  obtain s' e where run: "families_loop orphan_reads (families_init (coord_manifest_of orphan_reads)) = (s', e)"
    by (cases "families_loop orphan_reads (families_init (coord_manifest_of orphan_reads))")
  have e: "e = None" using run by (simp add: orphan_reads_def run_defs)
  have m: "?r \<in> set orphan_reads" by (simp add: orphan_reads_def)
  have n: "query_name ?r = ''a''" by (simp add: example_read_def)
  have c: "count_list (map query_name orphan_reads) (query_name ?r) = 1"
    by (simp add: orphan_reads_def example_read_def)
  have kk: "key_of ?r = (''chr1'', 100, 200)"
    by (simp add: key_of_def example_read_def LightweightAlignment_def)
  from orphan_key_never_yielded [OF c m run] e
  have "key_of ?r \<notin> yielded_keys s' \<and> pairing_dict s' (query_name ?r) = Some ?r"
    by blast
  then show ?thesis using m c e by (simp only: run fst_conv snd_conv n kk) simp
qed

subsection \<open>A well-formed input is consumed whole\<close>

lemma asm_key: "assembling K s rest \<Longrightarrow> r \<in> set rest \<Longrightarrow> key_of r = K (query_name r)"
  by (simp add: assembling_def)

lemma asm_wait:
  "assembling K s rest \<Longrightarrow> pairing_dict s n = Some r0 \<Longrightarrow>
     query_name r0 = n \<and> count_list (map query_name rest) n = 1"
  unfolding assembling_def by blast

lemma asm_free:
  "assembling K s rest \<Longrightarrow> pairing_dict s n = None \<Longrightarrow>
     count_list (map query_name rest) n = 0 \<or> count_list (map query_name rest) n = 2"
  unfolding assembling_def by blast

lemma asm_owed: "assembling K s rest \<Longrightarrow> owed s k = {n \<in> query_name ` set rest. K n = k}"
  unfolding assembling_def by blast

lemma asm_group:
  "assembling K s rest \<Longrightarrow> family_dict s k = Some g \<Longrightarrow>
     owed s k \<noteq> {} \<and> (\<forall>p\<in>set g. settled K rest k p)"
  unfolding assembling_def by blast

lemma settled_tail: "settled K (x # rest) k p \<Longrightarrow> settled K rest k p"
  by (simp add: settled_def)

lemma count_names_Cons:
  "count_list (map query_name (x # rest)) n
     = (if query_name x = n then 1 else 0) + count_list (map query_name rest) n"
  by simp

lemma count_pos_name: "count_list (map query_name rest) n \<noteq> 0 \<Longrightarrow> n \<in> query_name ` set rest"
  using count_list_0_iff [of "map query_name rest" n] by auto

lemma count_zero_name: "count_list (map query_name rest) n = 0 \<Longrightarrow> n \<notin> query_name ` set rest"
  using count_list_0_iff [of "map query_name rest" n] by auto

text \<open>First mate of a pair: it is stored, nothing else changes.\<close>

lemma assembling_store:
  assumes inv: "assembling K s (x # rest)" and free: "pairing_dict s (query_name x) = None"
  defines "s' \<equiv> s\<lparr>pairing_dict := (pairing_dict s)(query_name x \<mapsto> x)\<rparr>"
  shows "assembling K s' rest"
proof -
  let ?n0 = "query_name x"
  have c2: "count_list (map query_name (x # rest)) ?n0 = 2"
    using asm_free [OF inv free] by simp
  then have c1: "count_list (map query_name rest) ?n0 = 1" by simp
  then have n0: "?n0 \<in> query_name ` set rest" by (intro count_pos_name) simp
  have A: "\<forall>r\<in>set rest. key_of r = K (query_name r)"
    using asm_key [OF inv] by simp
  have B: "query_name r0 = n \<and> count_list (map query_name rest) n = 1"
    if "pairing_dict s' n = Some r0" for n r0
  proof (cases "n = ?n0")
    case True
    then show ?thesis using that c1 by (simp add: s'_def)
  next
    case False
    then have "pairing_dict s n = Some r0" using that by (simp add: s'_def)
    from asm_wait [OF inv this] False show ?thesis by auto
  qed
  have C: "count_list (map query_name rest) n = 0 \<or> count_list (map query_name rest) n = 2"
    if "pairing_dict s' n = None" for n
  proof -
    have ne: "n \<noteq> ?n0" using that by (auto simp: s'_def)
    then have "pairing_dict s n = None" using that by (simp add: s'_def)
    from asm_free [OF inv this] ne show ?thesis by auto
  qed
  have D: "owed s' k = {n \<in> query_name ` set rest. K n = k}" for k
  proof -
    have "owed s' k = {n \<in> query_name ` set (x # rest). K n = k}"
      using asm_owed [OF inv, of k] by (simp add: s'_def)
    also have "query_name ` set (x # rest) = query_name ` set rest" using n0 by auto
    finally show ?thesis .
  qed
  have E: "owed s' k \<noteq> {} \<and> (\<forall>p\<in>set g. settled K rest k p)"
    if "family_dict s' k = Some g" for k g
  proof -
    have "family_dict s k = Some g" using that by (simp add: s'_def)
    from asm_group [OF inv this] show ?thesis
      by (auto simp: s'_def intro: settled_tail)
  qed
  show ?thesis
    unfolding assembling_def using A B C D E by blast
qed

lemma held_store:
  assumes free: "pairing_dict s (query_name x) = None"
  shows "held K n (s\<lparr>pairing_dict := (pairing_dict s)(query_name x \<mapsto> x)\<rparr>)
    = held K n s + (if query_name x = n then {#x#} else {#})"
  using free by (auto simp: held_def)

lemma pair_facts:
  assumes inv: "assembling K s (x # rest)" and wait: "pairing_dict s (query_name x) = Some mate"
  shows "query_name mate = query_name x"
    and "query_name x \<notin> query_name ` set rest"
    and "key_of x = K (query_name x)"
    and "query_name x \<in> owed s (key_of x)"
    and "owed s (key_of x) - {query_name x} = {n \<in> query_name ` set rest. K n = key_of x}"
    and "\<forall>p\<in>set (dd_get [] (family_dict s) (key_of x)). settled K (x # rest) (key_of x) p"
    and "new_group s mate x = PairedAlignment mate x # dd_get [] (family_dict s) (key_of x)"
    and "settled K rest (key_of x) (PairedAlignment mate x)"
proof -
  let ?n0 = "query_name x" and ?k0 = "key_of x"
  show nm: "query_name mate = ?n0" using asm_wait [OF inv wait] by simp
  have "count_list (map query_name (x # rest)) ?n0 = 1" using asm_wait [OF inv wait] by simp
  then have "count_list (map query_name rest) ?n0 = 0" by simp
  then show fresh: "?n0 \<notin> query_name ` set rest" by (rule count_zero_name)
  show k0: "?k0 = K ?n0" using asm_key [OF inv, of x] by simp
  have ow: "owed s ?k0 = {n \<in> query_name ` set (x # rest). K n = ?k0}"
    by (rule asm_owed [OF inv])
  show "?n0 \<in> owed s ?k0" unfolding ow using k0 by simp
  show "owed s ?k0 - {?n0} = {n \<in> query_name ` set rest. K n = ?k0}"
    unfolding ow using fresh by (auto simp: image_iff)
  show old: "\<forall>p\<in>set (dd_get [] (family_dict s) ?k0). settled K (x # rest) ?k0 p"
  proof (cases "family_dict s ?k0")
    case None
    then show ?thesis by (simp add: dd_get_def)
  next
    case (Some g)
    from asm_group [OF inv Some] show ?thesis by (simp add: dd_get_def Some)
  qed
  have "PairedAlignment mate x \<notin> set (dd_get [] (family_dict s) ?k0)"
  proof
    assume "PairedAlignment mate x \<in> set (dd_get [] (family_dict s) ?k0)"
    with old have "settled K (x # rest) ?k0 (PairedAlignment mate x)" by blast
    then show False by (simp add: settled_def PairedAlignment_def nm)
  qed
  then show "new_group s mate x = PairedAlignment mate x # dd_get [] (family_dict s) ?k0"
    by (simp add: new_group_def)
  show "settled K rest ?k0 (PairedAlignment mate x)"
    using fresh k0 by (simp add: settled_def PairedAlignment_def nm)
qed

lemma assembling_rest:
  assumes inv: "assembling K s (x # rest)" and wait: "pairing_dict s (query_name x) = Some mate"
    and p': "pairing_dict s' = (pairing_dict s)(query_name x := None)"
    and o': "\<And>k. owed s' k = (if k = key_of x then owed s (key_of x) - {query_name x} else owed s k)"
    and f': "\<And>k. k \<noteq> key_of x \<Longrightarrow> family_dict s' k = family_dict s k"
    and g': "\<And>g. family_dict s' (key_of x) = Some g \<Longrightarrow>
       owed s (key_of x) - {query_name x} \<noteq> {} \<and> g = new_group s mate x"
  shows "assembling K s' rest"
proof -
  let ?n0 = "query_name x" and ?k0 = "key_of x"
  note pf = pair_facts [OF inv wait]
  have A: "\<forall>r\<in>set rest. key_of r = K (query_name r)"
    using asm_key [OF inv] by simp
  have B: "query_name r0 = n \<and> count_list (map query_name rest) n = 1"
    if "pairing_dict s' n = Some r0" for n r0
  proof -
    have ne: "n \<noteq> ?n0" using that by (auto simp: p')
    then have "pairing_dict s n = Some r0" using that by (simp add: p')
    from asm_wait [OF inv this] ne show ?thesis by auto
  qed
  have C: "count_list (map query_name rest) n = 0 \<or> count_list (map query_name rest) n = 2"
    if "pairing_dict s' n = None" for n
  proof (cases "n = ?n0")
    case True
    then show ?thesis using pf(2) count_list_0_iff [of "map query_name rest" n] by auto
  next
    case False
    then have "pairing_dict s n = None" using that by (simp add: p')
    from asm_free [OF inv this] False show ?thesis by auto
  qed
  have D: "owed s' k = {n \<in> query_name ` set rest. K n = k}" for k
  proof (cases "k = ?k0")
    case True
    then show ?thesis using pf(5) by (simp add: o')
  next
    case False
    have "owed s' k = {n \<in> query_name ` set (x # rest). K n = k}"
      using asm_owed [OF inv, of k] False by (simp add: o')
    also have "\<dots> = {n \<in> query_name ` set rest. K n = k}"
      using False pf(3) by auto
    finally show ?thesis .
  qed
  have E: "owed s' k \<noteq> {} \<and> (\<forall>p\<in>set g. settled K rest k p)"
    if fam: "family_dict s' k = Some g" for k g
  proof (cases "k = ?k0")
    case True
    from g' [of g] fam True
    have ne: "owed s ?k0 - {?n0} \<noteq> {}" and g: "g = new_group s mate x" by simp_all
    have "\<forall>p\<in>set g. settled K rest ?k0 p"
      unfolding g pf(7) using pf(6,8) by (auto intro: settled_tail)
    then show ?thesis using ne True by (simp add: o')
  next
    case False
    then have "family_dict s k = Some g" using fam by (simp add: f')
    from asm_group [OF inv this] False show ?thesis
      by (auto simp: o' intro: settled_tail)
  qed
  show ?thesis
    unfolding assembling_def using A B C D E by blast
qed

lemma segments_of_simps [simp]:
  "segments_of [] = []"
  "segments_of (p # ps) = left_alignment p # right_alignment p # segments_of ps"
  "segments_of (ps @ qs) = segments_of ps @ segments_of qs"
  by (simp_all add: segments_of_def)

lemma settled_other_name:
  assumes "\<forall>p\<in>set g. settled K R k p" and "K n \<noteq> k"
  shows "filter_mset (\<lambda>r. query_name r = n) (mset (segments_of g)) = {#}"
  using assms by (induction g) (auto simp: settled_def)

lemma held_keep:
  assumes inv: "assembling K s (x # rest)" and wait: "pairing_dict s (query_name x) = Some mate"
    and y': "yielded s' = yielded s"
    and f': "family_dict s' = (family_dict s)(key_of x \<mapsto> new_group s mate x)"
    and p': "pairing_dict s' = (pairing_dict s)(query_name x := None)"
  shows "held K n s' = held K n s + (if query_name x = n then {#x#} else {#})"
proof -
  note pf = pair_facts [OF inv wait]
  show ?thesis
  proof (cases "query_name x = n")
    case True
    then have "K n = key_of x" using pf(3) by simp
    then show ?thesis
      using True wait pf(1)
      by (simp add: held_def y' f' p' pf(7) dd_get_def PairedAlignment_def)
  next
    case False
    show ?thesis
    proof (cases "K n = key_of x")
      case True
      then show ?thesis
        using False pf(1)
        by (simp add: held_def y' f' p' pf(7) dd_get_def PairedAlignment_def)
    next
      case False
      then show ?thesis
        using \<open>query_name x \<noteq> n\<close> by (simp add: held_def y' f' p' dd_get_def)
    qed
  qed
qed

lemma held_yield:
  assumes inv: "assembling K s (x # rest)" and wait: "pairing_dict s (query_name x) = Some mate"
    and y': "yielded s' = yielded s @ [(key_of x, new_group s mate x)]"
    and f': "family_dict s' = (family_dict s)(key_of x := None)"
    and p': "pairing_dict s' = (pairing_dict s)(query_name x := None)"
  shows "held K n s' = held K n s + (if query_name x = n then {#x#} else {#})"
proof -
  note pf = pair_facts [OF inv wait]
  let ?g = "dd_get [] (family_dict s) (key_of x)"
  show ?thesis
  proof (cases "query_name x = n")
    case True
    then have "K n = key_of x" using pf(3) by simp
    then show ?thesis
      using True wait pf(1)
      by (simp add: held_def y' f' p' pf(7) PairedAlignment_def) (simp add: dd_get_def)
  next
    case False
    show ?thesis
    proof (cases "K n = key_of x")
      case True
      then show ?thesis
        using False pf(1)
        by (simp add: held_def y' f' p' pf(7) PairedAlignment_def) (simp add: dd_get_def)
    next
      case False
      have "filter_mset (\<lambda>r. query_name r = n) (mset (segments_of ?g)) = {#}"
        using pf(6) False by (rule settled_other_name)
      then show ?thesis
        using False \<open>query_name x \<noteq> n\<close> pf(1)
        by (simp add: held_def y' f' p' pf(7) PairedAlignment_def) (simp add: dd_get_def)
    qed
  qed
qed

lemma step_assembling:
  assumes inv: "assembling K s (x # rest)"
  shows "\<exists>s'. families_step x s = (s', None) \<and> assembling K s' rest
    \<and> (\<forall>n. held K n s' = held K n s + (if query_name x = n then {#x#} else {#}))"
proof (cases "pairing_dict s (query_name x)")
  case None
  show ?thesis
    using step_store [OF None] assembling_store [OF inv None] held_store [OF None, of K]
    by auto
next
  case (Some mate)
  note pf = pair_facts [OF inv Some]
  show ?thesis
  proof (cases "owed s (key_of x) - {query_name x} = {}")
    case True
    let ?s' = "s\<lparr>pairing_dict := (pairing_dict s)(query_name x := None),
       family_dict := (family_dict s)(key_of x := None),
       manifest := (manifest s)(key_of x \<mapsto> {}),
       yielded := yielded s @ [(key_of x, new_group s mate x)]\<rparr>"
    have st: "families_step x s = (?s', None)"
      using Some pf(4) True by (rule step_yield)
    have "assembling K ?s' rest"
      using inv Some by (rule assembling_rest) (simp_all add: True)
    moreover have "held K n ?s' = held K n s + (if query_name x = n then {#x#} else {#})" for n
      using inv Some by (rule held_yield) simp_all
    ultimately show ?thesis using st by blast
  next
    case False
    let ?s' = "s\<lparr>pairing_dict := (pairing_dict s)(query_name x := None),
       family_dict := (family_dict s)(key_of x \<mapsto> new_group s mate x),
       manifest := (manifest s)(key_of x \<mapsto> owed s (key_of x) - {query_name x})\<rparr>"
    have st: "families_step x s = (?s', None)"
      using Some pf(4) False by (rule step_keep)
    have "assembling K ?s' rest"
      using inv Some by (rule assembling_rest) (use False in simp_all)
    moreover have "held K n ?s' = held K n s + (if query_name x = n then {#x#} else {#})" for n
      using inv Some by (rule held_keep) simp_all
    ultimately show ?thesis using st by blast
  qed
qed

lemma loop_assembling:
  assumes "assembling K s rest"
  shows "\<exists>s'. families_loop rest s = (s', None) \<and> assembling K s' []
    \<and> (\<forall>n. held K n s' = held K n s + filter_mset (\<lambda>r. query_name r = n) (mset rest))"
  using assms
proof (induction rest arbitrary: s)
  case Nil
  then show ?case by simp
next
  case (Cons x rest)
  from step_assembling [OF Cons.prems] obtain s1
    where st: "families_step x s = (s1, None)" and inv1: "assembling K s1 rest"
      and h1: "\<And>n. held K n s1 = held K n s + (if query_name x = n then {#x#} else {#})"
    by blast
  from Cons.IH [OF inv1] obtain s'
    where l: "families_loop rest s1 = (s', None)" and inv': "assembling K s' []"
      and h': "\<And>n. held K n s' = held K n s1 + filter_mset (\<lambda>r. query_name r = n) (mset rest)"
    by blast
  have "families_loop (x # rest) s = (s', None)" using st l by simp
  moreover have "held K n s' = held K n s + filter_mset (\<lambda>r. query_name r = n) (mset (x # rest))" for n
    by (simp add: h' h1)
  ultimately show ?case using inv' by blast
qed

lemma assembling_done:
  assumes "assembling K s []"
  shows "held K n s = filter_mset (\<lambda>r. query_name r = n) (mset (segments_of (concat (map snd (yielded s)))))"
proof -
  have p: "pairing_dict s n = None"
  proof (cases "pairing_dict s n")
    case (Some r0)
    from asm_wait [OF assms Some] show ?thesis by simp
  qed simp
  have f: "family_dict s (K n) = None"
  proof (cases "family_dict s (K n)")
    case (Some g)
    from asm_group [OF assms Some] asm_owed [OF assms, of "K n"] show ?thesis by simp
  qed simp
  show ?thesis by (simp add: held_def p f dd_get_def)
qed

lemma find_SomeD: "find P xs = Some x \<Longrightarrow> x \<in> set xs \<and> P x"
  by (induction xs) (auto split: if_splits)

lemma find_NoneD: "find P xs = None \<Longrightarrow> x \<in> set xs \<Longrightarrow> \<not> P x"
  by (induction xs) (auto split: if_splits)

lemma key_of_name_read:
  assumes "well_formed_input segs" and "r \<in> set segs"
  shows "key_of r = key_of_name segs (query_name r)"
proof (cases "find (\<lambda>r'. query_name r' = query_name r) segs")
  case None
  from find_NoneD [OF this assms(2)] show ?thesis by simp
next
  case (Some r')
  from find_SomeD [OF this] have "r' \<in> set segs" "query_name r' = query_name r"
    by simp_all
  then have "key_of r' = key_of r" using assms unfolding well_formed_input_def by blast
  then show ?thesis by (simp add: key_of_name_def Some)
qed

lemma assembling_init:
  assumes wf: "well_formed_input segs"
  shows "assembling (key_of_name segs) (families_init (coord_manifest_of segs)) segs"
proof -
  let ?K = "key_of_name segs" and ?s = "families_init (coord_manifest_of segs)"
  have A: "\<forall>r\<in>set segs. key_of r = ?K (query_name r)"
    using key_of_name_read [OF wf] by blast
  have p: "pairing_dict ?s = Map.empty" and f: "family_dict ?s = Map.empty"
    by (simp_all add: families_init_def)
  have C: "count_list (map query_name segs) n = 0 \<or> count_list (map query_name segs) n = 2" for n
  proof (cases "n \<in> query_name ` set segs")
    case True
    then show ?thesis using wf unfolding well_formed_input_def by blast
  next
    case False
    then show ?thesis using count_list_0_iff [of "map query_name segs" n] by simp
  qed
  have D: "owed ?s k = {n \<in> query_name ` set segs. ?K n = k}" for k
    unfolding owed_init using A by auto
  show ?thesis
    unfolding assembling_def using A C D by (simp add: p f)
qed

lemma mset_by_name:
  fixes M N :: "aligned_segment multiset"
  assumes "\<And>n. filter_mset (\<lambda>r. query_name r = n) M = filter_mset (\<lambda>r. query_name r = n) N"
  shows "M = N"
proof (rule multiset_eqI)
  fix x :: aligned_segment
  have "count M x = count (filter_mset (\<lambda>r. query_name r = query_name x) M) x" by simp
  also have "\<dots> = count (filter_mset (\<lambda>r. query_name r = query_name x) N) x"
    by (simp only: assms)
  also have "\<dots> = count N x" by simp
  finally show "count M x = count N x" .
qed

lemma pair_reads_well_formed: "well_formed_input pair_reads"
  by (simp add: well_formed_input_def pair_reads_def example_read_def key_of_def
      LightweightAlignment_def)

text \<open>
  Claim C3. On every well-formed input (each read name occurs exactly twice, both
  occurrences with the same coordinate key), with the manifest built from that input,
  the second pass ends without error, and the reads of the pairs of the groups it
  yields, taken with multiplicity, are exactly the reads of the input: their number is
  the number of input reads, and every input read is a mate of exactly one yielded pair.
\<close>

theorem well_formed_input_consumed:
  assumes "well_formed_input segs"
  shows "\<exists>groups. build_coordinate_families segs (coord_manifest_of segs) = (groups, None)
    \<and> mset (segments_of (concat groups)) = mset segs
    \<and> length (segments_of (concat groups)) = length segs"
proof -
  let ?K = "key_of_name segs" and ?s = "families_init (coord_manifest_of segs)"
  from loop_assembling [OF assembling_init [OF assms]] obtain s'
    where l: "families_loop segs ?s = (s', None)" and inv': "assembling ?K s' []"
      and h: "\<And>n. held ?K n s' = held ?K n ?s + filter_mset (\<lambda>r. query_name r = n) (mset segs)"
    by blast
  let ?groups = "map snd (yielded s')"
  have h0: "held ?K n ?s = {#}" for n
    by (simp add: held_def families_init_def dd_get_def)
  have "filter_mset (\<lambda>r. query_name r = n) (mset (segments_of (concat ?groups)))
      = filter_mset (\<lambda>r. query_name r = n) (mset segs)" for n
    using h [of n] by (simp add: assembling_done [OF inv'] h0)
  then have m: "mset (segments_of (concat ?groups)) = mset segs"
    by (rule mset_by_name)
  then have "length (segments_of (concat ?groups)) = length segs"
    by (rule mset_eq_length)
  moreover have "build_coordinate_families segs (coord_manifest_of segs) = (?groups, None)"
    by (simp add: build_coordinate_families_def l)
  ultimately show ?thesis using m by blast
qed

theorem well_formed_input_consumed_witness:
  "well_formed_input pair_reads
   \<and> snd (build_coordinate_families pair_reads (coord_manifest_of pair_reads)) = None
   \<and> mset (segments_of (concat (fst (build_coordinate_families pair_reads
         (coord_manifest_of pair_reads))))) = mset pair_reads
   \<and> length (segments_of (concat (fst (build_coordinate_families pair_reads
         (coord_manifest_of pair_reads))))) = 2"
proof -
  from well_formed_input_consumed [OF pair_reads_well_formed] obtain groups
    where "build_coordinate_families pair_reads (coord_manifest_of pair_reads) = (groups, None)"
      and "mset (segments_of (concat groups)) = mset pair_reads"
      and "length (segments_of (concat groups)) = length pair_reads"
    by blast
  moreover have "length pair_reads = 2" by (simp add: pair_reads_def)
  ultimately show ?thesis using pair_reads_well_formed by simp
qed

end
